theory Spec2Isabelle
  imports Main "HOL-Library.Word"
begin

section \<open>Python objects, the store and the console\<close>

text \<open>
  The notebook \<open>lesson_1/loss_tracking.ipynb\<close> inspects objects by attribute
  (\<open>hasattr\<close>, \<open>.grad_fn\<close>, \<open>.next_functions\<close>) and prints their textual identity.
  An object is a record of the attributes the notebook reads. An attribute that may be
  missing is an \<open>option\<close>: \<open>grad_fn o = None\<close> says \<open>hasattr(o, 'grad_fn')\<close> is false,
  \<open>grad_fn o = Some None\<close> says the attribute is there and holds Python's \<open>None\<close>,
  \<open>grad_fn o = Some (Some g)\<close> says it refers to the object at address \<open>g\<close>.
  Objects refer to each other by address, so that a backward node shared by two operand
  links is one object, and a chain of links may in principle run in a circle.
\<close>

type_synonym addr = nat

record obj =
  cls :: string
  str :: string
  grad_fn :: "addr option option"
  next_functions :: "(addr option \<times> int) list option"
  requires_grad :: bool
  variable :: "addr option"

text \<open>
  The world is the store of objects, the next unused address (allocation is only done by
  the tensor library, modelled further down) and the lines written to the console so far.
\<close>

record world =
  heap :: "addr \<Rightarrow> obj"
  next_id :: addr
  stdout :: "string list"

datatype error = AttributeError

type_synonym 'a run = "world \<Rightarrow> ((error + 'a) \<times> world) option"

definition print_line :: "string \<Rightarrow> world \<Rightarrow> world" where
  "print_line s w = w\<lparr>stdout := stdout w @ [s]\<rparr>"

text \<open>Python's \<open>" " * indent\<close>: the empty string when \<open>indent\<close> is negative.\<close>

definition spaces :: "int \<Rightarrow> string" where
  "spaces indent = replicate (nat indent) (CHR '' '')"

section \<open>The graph inspector\<close>

text \<open>
  \<open>for f, _ in fs: if f is not None: body(f)\<close>. An exception raised by the body leaves the
  loop; a body that does not return makes the loop not return.
\<close>

fun for_next_functions :: "(addr \<Rightarrow> unit run) \<Rightarrow> (addr option \<times> int) list \<Rightarrow> unit run" where
  "for_next_functions body [] w = Some (Inr (), w)"
| "for_next_functions body ((None, _) # fs) w = for_next_functions body fs w"
| "for_next_functions body ((Some f, _) # fs) w =
     (case body f w of
        None \<Rightarrow> None
      | Some (Inl e, w') \<Rightarrow> Some (Inl e, w')
      | Some (Inr _, w') \<Rightarrow> for_next_functions body fs w')"

text \<open>
  \<open>print_grad_graph(tensor, indent)\<close>. The first argument of the model bounds the depth of
  the recursion: the source has no bound and recurses as long as there are links to follow,
  so a call that does not return is the value \<open>None\<close> at every bound. In the first branch
  the line is printed before \<open>tensor.grad_fn.next_functions\<close> is read, so an object whose
  \<open>grad_fn\<close> has no \<open>next_functions\<close> raises after its line is out.
\<close>

fun print_grad_graph :: "nat \<Rightarrow> addr \<Rightarrow> int \<Rightarrow> unit run" where
  "print_grad_graph 0 tensor indent w = None"
| "print_grad_graph (Suc k) tensor indent w =
     (case grad_fn (heap w tensor) of
        Some (Some g) \<Rightarrow>
          (let w1 = print_line (spaces indent @ str (heap w g)) w in
           case next_functions (heap w1 g) of
             None \<Rightarrow> Some (Inl AttributeError, w1)
           | Some fs \<Rightarrow>
               for_next_functions (\<lambda>f w'. print_grad_graph k f (indent + 4) w') fs w1)
      | _ \<Rightarrow>
          (case next_functions (heap w tensor) of
             Some fs \<Rightarrow>
               (let w1 = print_line (spaces indent @ str (heap w tensor)) w in
                for_next_functions (\<lambda>f w'. print_grad_graph k f (indent + 4) w') fs w1)
           | None \<Rightarrow> Some (Inr (), w)))"

text \<open>The text one call writes, and how the call ends.\<close>

definition printed :: "nat \<Rightarrow> addr \<Rightarrow> int \<Rightarrow> world \<Rightarrow> (string list \<times> (error + unit)) option" where
  "printed k tensor indent w =
     map_option (\<lambda>(r, w'). (drop (length (stdout w)) (stdout w'), r))
       (print_grad_graph k tensor indent w)"

section \<open>What the inspector sees of the store\<close>

text \<open>
  The node a call prints: the \<open>grad_fn\<close> of a value that has one, the value itself when it
  has \<open>next_functions\<close>, nothing otherwise.
\<close>

definition node_of :: "(addr \<Rightarrow> obj) \<Rightarrow> addr \<Rightarrow> addr option" where
  "node_of h a =
     (case grad_fn (h a) of
        Some (Some g) \<Rightarrow> Some g
      | _ \<Rightarrow> (case next_functions (h a) of Some fs \<Rightarrow> Some a | None \<Rightarrow> None))"

text \<open>The links of a \<open>next_functions\<close> tuple that are not \<open>None\<close>, in order.\<close>

fun non_null :: "(addr option \<times> int) list \<Rightarrow> addr list" where
  "non_null [] = []"
| "non_null ((None, _) # fs) = non_null fs"
| "non_null ((Some f, _) # fs) = f # non_null fs"

text \<open>The values a call on \<open>a\<close> calls itself on, in order.\<close>

definition links :: "(addr \<Rightarrow> obj) \<Rightarrow> addr \<Rightarrow> addr list" where
  "links h a =
     (case node_of h a of
        None \<Rightarrow> []
      | Some n \<Rightarrow> (case next_functions (h n) of None \<Rightarrow> [] | Some fs \<Rightarrow> non_null fs))"

definition edges :: "(addr \<Rightarrow> obj) \<Rightarrow> (addr \<times> addr) set" where
  "edges h = {(a, c). c \<in> set (links h a)}"

text \<open>The part of the graph that can be reached from \<open>a\<close>.\<close>

definition edges_from :: "(addr \<Rightarrow> obj) \<Rightarrow> addr \<Rightarrow> (addr \<times> addr) set" where
  "edges_from h a = {(x, c). (a, x) \<in> (edges h)\<^sup>* \<and> (x, c) \<in> edges h}"

text \<open>
  A path is the list of the positions of the links taken (positions among the links that
  are not \<open>None\<close>); \<open>walk h a p\<close> is the node the path \<open>p\<close> ends in, when \<open>p\<close> is a path
  from \<open>a\<close> to a node.
\<close>

fun walk :: "(addr \<Rightarrow> obj) \<Rightarrow> addr \<Rightarrow> nat list \<Rightarrow> addr option" where
  "walk h a [] = node_of h a"
| "walk h a (j # p) = (if j < length (links h a) then walk h (links h a ! j) p else None)"

text \<open>
  The tree a graph unfolds to from \<open>a\<close>, down to a depth, and the printing of a tree that
  the specification describes: the root first, at the current indentation, then the
  subtrees in order, four more spaces each level.
\<close>

datatype tree = Tree string "tree list"

fun tree_of :: "nat \<Rightarrow> (addr \<Rightarrow> obj) \<Rightarrow> addr \<Rightarrow> tree option" where
  "tree_of 0 h a = None"
| "tree_of (Suc k) h a =
     (case node_of h a of
        None \<Rightarrow> None
      | Some n \<Rightarrow>
          (case next_functions (h n) of
             None \<Rightarrow> None
           | Some fs \<Rightarrow> map_option (Tree (str (h n))) (those (map (tree_of k h) (non_null fs)))))"

fun preorder :: "nat \<Rightarrow> tree \<Rightarrow> string list" where
  "preorder ind (Tree s ts) =
     (replicate ind (CHR '' '') @ s) # concat (map (preorder (ind + 4)) ts)"

section \<open>The text of a call as a function of the store\<close>

text \<open>
  Auxiliary: the lines and the ending of a call, computed from the store alone.
  \<open>print_grad_graph_trace\<close> below shows that this is what \<open>print_grad_graph\<close> does.
\<close>

type_synonym text_end = "string list \<times> (error + unit)"

fun trace_seq :: "(addr \<Rightarrow> text_end option) \<Rightarrow> addr list \<Rightarrow> text_end option" where
  "trace_seq body [] = Some ([], Inr ())"
| "trace_seq body (f # fs) =
     (case body f of
        None \<Rightarrow> None
      | Some (out, Inl e) \<Rightarrow> Some (out, Inl e)
      | Some (out, Inr _) \<Rightarrow> map_option (\<lambda>(out', r). (out @ out', r)) (trace_seq body fs))"

fun trace :: "nat \<Rightarrow> (addr \<Rightarrow> obj) \<Rightarrow> addr \<Rightarrow> int \<Rightarrow> text_end option" where
  "trace 0 h a indent = None"
| "trace (Suc k) h a indent =
     (case node_of h a of
        None \<Rightarrow> Some ([], Inr ())
      | Some n \<Rightarrow>
          (case next_functions (h n) of
             None \<Rightarrow> Some ([spaces indent @ str (h n)], Inl AttributeError)
           | Some fs \<Rightarrow>
               map_option (\<lambda>(out, r). ((spaces indent @ str (h n)) # out, r))
                 (trace_seq (\<lambda>f. trace k h f (indent + 4)) (non_null fs))))"

definition emit :: "text_end option \<Rightarrow> unit run" where
  "emit t w = map_option (\<lambda>(out, r). (r, w\<lparr>stdout := stdout w @ out\<rparr>)) t"

text \<open>Every line moved to the right by \<open>n\<close> spaces.\<close>

definition indent_by :: "nat \<Rightarrow> text_end \<Rightarrow> text_end" where
  "indent_by n = (\<lambda>(out, r). (map (\<lambda>l. replicate n (CHR '' '') @ l) out, r))"

text \<open>
  The line for a path \<open>p\<close> from \<open>a\<close>: the textual identity of the node the path ends in,
  four spaces further to the right for each link of the path.
\<close>

definition path_line :: "(addr \<Rightarrow> obj) \<Rightarrow> addr \<Rightarrow> int \<Rightarrow> nat list \<Rightarrow> string" where
  "path_line h a indent p = spaces (indent + 4 * int (length p)) @ str (h (the (walk h a p)))"

text \<open>Auxiliary: the paths from \<open>a\<close> of less than \<open>k\<close> links, in the order of the traversal.\<close>

fun paths :: "nat \<Rightarrow> (addr \<Rightarrow> obj) \<Rightarrow> addr \<Rightarrow> nat list list" where
  "paths 0 h a = []"
| "paths (Suc k) h a =
     (case node_of h a of
        None \<Rightarrow> []
      | Some n \<Rightarrow>
          [] # concat (map (\<lambda>j. map ((#) j) (paths k h (links h a ! j))) [0..<length (links h a)]))"

section \<open>The tensor library, as far as the notebooks use it\<close>

text \<open>
  Modelled from the spec: the tensor library (\<open>torch\<close>) is not part of the repository, so
  what its operations record is taken from section 3 of the specification and from the
  outputs kept in the notebook. A differentiable operation on tensors makes one backward
  node that holds, in the order of the operands, a link for each operand: the operand's
  own backward node when it was computed, a leaf marker (\<open>AccumulateGrad\<close>, with the
  tensor as its \<open>variable\<close> and no links of its own) when it is an original tensor that is
  tracked, and \<open>None\<close> when it is not tracked. The result carries the node as its
  \<open>grad_fn\<close>; when no operand is tracked there is no node and the result is untracked.
  The numbers inside the tensors are floating point and are left out. The textual identity
  of a node is its class name in angle brackets (the library adds the address of the
  object).
\<close>

definition alloc :: "obj \<Rightarrow> world \<Rightarrow> addr \<times> world" where
  "alloc ob w = (next_id w, w\<lparr>heap := (heap w)(next_id w := ob), next_id := Suc (next_id w)\<rparr>)"

definition new_tensor :: "bool \<Rightarrow> addr option \<Rightarrow> world \<Rightarrow> addr \<times> world" where
  "new_tensor rg fn =
     alloc \<lparr>cls = ''Tensor'', str = ''tensor(...)'', grad_fn = Some fn, next_functions = None,
            requires_grad = rg, variable = None\<rparr>"

definition new_node :: "string \<Rightarrow> (addr option \<times> int) list \<Rightarrow> addr option \<Rightarrow> world \<Rightarrow> addr \<times> world" where
  "new_node name fs v =
     alloc \<lparr>cls = name, str = ''<'' @ name @ ''>'', grad_fn = None, next_functions = Some fs,
            requires_grad = False, variable = v\<rparr>"

definition gradient_edge :: "addr \<Rightarrow> world \<Rightarrow> (addr option \<times> int) \<times> world" where
  "gradient_edge t w =
     (case grad_fn (heap w t) of
        Some (Some g) \<Rightarrow> ((Some g, 0), w)
      | _ \<Rightarrow>
          if requires_grad (heap w t)
          then (let (n, w') = new_node ''AccumulateGrad'' [] (Some t) w in ((Some n, 0), w'))
          else ((None, 0), w))"

fun collect_next_edges :: "addr list \<Rightarrow> world \<Rightarrow> (addr option \<times> int) list \<times> world" where
  "collect_next_edges [] w = ([], w)"
| "collect_next_edges (t # ts) w =
     (let (e, w1) = gradient_edge t w; (es, w2) = collect_next_edges ts w1 in (e # es, w2))"

definition apply_op :: "string \<Rightarrow> addr list \<Rightarrow> world \<Rightarrow> addr \<times> world" where
  "apply_op name ts w =
     (let (es, w1) = collect_next_edges ts w in
      if list_all (\<lambda>e. fst e = None) es then new_tensor False None w1
      else (let (n, w2) = new_node name es None w1 in new_tensor True (Some n) w2))"

definition tensor_mul :: "addr \<Rightarrow> addr \<Rightarrow> world \<Rightarrow> addr \<times> world" where
  "tensor_mul a b = apply_op ''MulBackward0'' [a, b]"

definition tensor_add :: "addr \<Rightarrow> addr \<Rightarrow> world \<Rightarrow> addr \<times> world" where
  "tensor_add a b = apply_op ''AddBackward0'' [a, b]"

definition tensor_sub :: "addr \<Rightarrow> addr \<Rightarrow> world \<Rightarrow> addr \<times> world" where
  "tensor_sub a b = apply_op ''SubBackward0'' [a, b]"

definition tensor_abs :: "addr \<Rightarrow> world \<Rightarrow> addr \<times> world" where
  "tensor_abs a = apply_op ''AbsBackward0'' [a]"

definition tensor_mean :: "addr \<Rightarrow> world \<Rightarrow> addr \<times> world" where
  "tensor_mean a = apply_op ''MeanBackward0'' [a]"

text \<open>\<open>nn.L1Loss()(y_pred, y_true)\<close>: the mean of \<open>|y_pred - y_true|\<close>, as the notebook says.\<close>

definition L1Loss :: "addr \<Rightarrow> addr \<Rightarrow> world \<Rightarrow> addr \<times> world" where
  "L1Loss y_pred y_true w =
     (let (d, w1) = tensor_sub y_pred y_true w; (a, w2) = tensor_abs d w1 in tensor_mean a w2)"

section \<open>The linear regression model\<close>

text \<open>
  \<open>class LinearRegressionModel\<close>: two parameters, both created with \<open>requires_grad=True\<close>,
  and \<open>forward\<close>, which returns \<open>self.weights * x + self.bias\<close>.
\<close>

record LinearRegressionModel =
  weights :: addr
  bias :: addr

definition init :: "world \<Rightarrow> LinearRegressionModel \<times> world" where
  "init w =
     (let (wt, w1) = new_tensor True None w; (b, w2) = new_tensor True None w1
      in (\<lparr>weights = wt, bias = b\<rparr>, w2))"

definition forward :: "LinearRegressionModel \<Rightarrow> addr \<Rightarrow> world \<Rightarrow> addr \<times> world" where
  "forward self x w = (let (t, w1) = tensor_mul (weights self) x w in tensor_add t (bias self) w1)"

text \<open>A leaf marker for the tensor \<open>t\<close>.\<close>

definition leaf_marker :: "(addr \<Rightarrow> obj) \<Rightarrow> addr \<Rightarrow> addr \<Rightarrow> bool" where
  "leaf_marker h n t \<longleftrightarrow>
     cls (h n) = ''AccumulateGrad'' \<and> variable (h n) = Some t \<and> next_functions (h n) = Some []"

text \<open>An original tensor: allocated, and not the result of an operation.\<close>

definition original :: "world \<Rightarrow> addr \<Rightarrow> bool" where
  "original w t \<longleftrightarrow> t < next_id w \<and> grad_fn (heap w t) = Some None"

text \<open>
  The cells of the notebook, from an empty store: \<open>model = LinearRegressionModel()\<close>,
  \<open>x = torch.randn(1, 1)\<close>, \<open>y_true = torch.randn(1, 1)\<close>, \<open>y_pred = model(x)\<close>,
  \<open>loss = loss_fn(y_pred, y_true)\<close>.
\<close>

definition blank :: obj where
  "blank = \<lparr>cls = ''object'', str = ''<object>'', grad_fn = None, next_functions = None,
             requires_grad = False, variable = None\<rparr>"

definition empty_world :: world where
  "empty_world = \<lparr>heap = (\<lambda>_. blank), next_id = 0, stdout = []\<rparr>"

definition setup_cell :: "bool \<Rightarrow> (LinearRegressionModel \<times> addr \<times> addr) \<times> world" where
  "setup_cell x_tracked =
     (let (model, w1) = init empty_world;
          (x, w2) = new_tensor x_tracked None w1;
          (y_true, w3) = new_tensor False None w2
      in ((model, x, y_true), w3))"

definition loss_cell :: "bool \<Rightarrow> (LinearRegressionModel \<times> addr \<times> addr \<times> addr \<times> addr) \<times> world" where
  "loss_cell x_tracked =
     (let ((model, x, y_true), w3) = setup_cell x_tracked;
          (y_pred, w4) = forward model x w3;
          (loss, w5) = L1Loss y_pred y_true w4
      in ((model, x, y_true, y_pred, loss), w5))"

text \<open>
  A store with a shared node, as \<open>w * w + c\<close> records it: the sum at address 2 links to
  the product at 1 and to nothing for the untracked \<open>c\<close>; the product links twice to the
  leaf marker at 0; the tensor at 3 has the sum as its \<open>grad_fn\<close>.
\<close>

definition shared_world :: world where
  "shared_world =
     \<lparr>heap = (\<lambda>_. blank)
        (0 := blank\<lparr>cls := ''AccumulateGrad'', str := ''<AccumulateGrad>'', next_functions := Some []\<rparr>,
         1 := blank\<lparr>cls := ''MulBackward0'', str := ''<MulBackward0>'',
                    next_functions := Some [(Some 0, 0), (Some 0, 0)]\<rparr>,
         2 := blank\<lparr>cls := ''AddBackward0'', str := ''<AddBackward0>'',
                    next_functions := Some [(Some 1, 0), (None, 0)]\<rparr>,
         3 := blank\<lparr>cls := ''Tensor'', str := ''tensor(...)'', grad_fn := Some (Some 2),
                    requires_grad := True\<rparr>),
      next_id = 4, stdout = []\<rparr>"

text \<open>A node that links to itself; the library never builds one.\<close>

definition looping_world :: world where
  "looping_world =
     \<lparr>heap = (\<lambda>_. blank\<lparr>next_functions := Some [(Some 0, 0)]\<rparr>), next_id = 1, stdout = []\<rparr>"

section \<open>Multiplying matrices\<close>

text \<open>
  Modelled from the spec: \<open>torch.mul\<close>, \<open>torch.mm\<close>, \<open>torch.matmul\<close>, \<open>torch.bmm\<close> and
  \<open>unsqueeze\<close> belong to the tensor library and are not part of the repository. They are
  modelled for operands whose shapes agree, as the specification describes them:
  elementwise multiplication, the matrix product of two matrices, and the matrix product
  of the matrices of two batches, pair by pair. The library's shape errors and
  broadcasting are left out; the notebook's operands are \<open>int32\<close> tensors.
\<close>

type_synonym int32 = "32 word"
type_synonym matrix = "int32 list list"

definition torch_mul :: "matrix \<Rightarrow> matrix \<Rightarrow> matrix" where
  "torch_mul a b = map2 (map2 (*)) a b"

definition torch_mm :: "matrix \<Rightarrow> matrix \<Rightarrow> matrix" where
  "torch_mm a b = map (\<lambda>row. map (\<lambda>col. sum_list (map2 (*) row col)) (transpose b)) a"

definition torch_matmul :: "matrix \<Rightarrow> matrix \<Rightarrow> matrix" where
  "torch_matmul a b = torch_mm a b"

definition torch_bmm :: "matrix list \<Rightarrow> matrix list \<Rightarrow> matrix list" where
  "torch_bmm as bs = map2 torch_mm as bs"

definition unsqueeze0 :: "matrix \<Rightarrow> matrix list" where
  "unsqueeze0 m = [m]"

text \<open>\<open>mat1 = torch.tensor([[1, 2], [3, 4]], dtype=torch.int32)\<close> and \<open>mat2 = torch.ones([2,2], dtype=torch.int32)\<close>.\<close>

definition mat1 :: matrix where
  "mat1 = [[1, 2], [3, 4]]"

definition mat2 :: matrix where
  "mat2 = replicate 2 (replicate 2 1)"

section \<open>A call writes the text that the store determines\<close>

lemma emit_simps:
  "emit None w = None"
  "emit (Some (out, r)) w = Some (r, w\<lparr>stdout := stdout w @ out\<rparr>)"
  by (simp_all add: emit_def)

lemma emit_Cons:
  "emit t (w\<lparr>stdout := stdout w @ [l]\<rparr>) = emit (map_option (\<lambda>(out, r). (l # out, r)) t) w"
  by (cases t) (auto simp: emit_def)

lemma for_next_functions_emit:
  assumes "\<And>f v. heap v = h \<Longrightarrow> body f v = emit (pb f) v"
  shows "heap w = h \<Longrightarrow> for_next_functions body fs w = emit (trace_seq pb (non_null fs)) w"
proof (induction fs arbitrary: w)
  case Nil
  then show ?case by (simp add: emit_def)
next
  case (Cons x fs)
  obtain f n where x: "x = (f, n)" by (cases x)
  show ?case
  proof (cases f)
    case None
    with Cons x show ?thesis by simp
  next
    case (Some c)
    have b: "body c w = emit (pb c) w" using assms Cons.prems by simp
    show ?thesis
    proof (cases "pb c")
      case None
      with b x Some show ?thesis by (simp add: emit_def)
    next
      case (Some res)
      obtain out r where res: "res = (out, r)" by (cases res)
      show ?thesis
      proof (cases r)
        case (Inl e)
        with b x \<open>f = Some c\<close> Some res show ?thesis by (simp add: emit_def)
      next
        case (Inr u)
        let ?w' = "w\<lparr>stdout := stdout w @ out\<rparr>"
        have hw: "heap ?w' = h" using Cons.prems by simp
        have "for_next_functions body fs ?w' = emit (trace_seq pb (non_null fs)) ?w'"
          using Cons.IH [OF hw] .
        with b x \<open>f = Some c\<close> Some res Inr show ?thesis
          by (cases "trace_seq pb (non_null fs)") (auto simp: emit_def)
      qed
    qed
  qed
qed

lemma print_grad_graph_trace:
  "print_grad_graph k a indent w = emit (trace k (heap w) a indent) w"
proof (induction k arbitrary: a indent w)
  case 0
  show ?case by (simp add: emit_def)
next
  case (Suc k)
  have loop: "for_next_functions (\<lambda>f w'. print_grad_graph k f (indent + 4) w') fs v
      = emit (trace_seq (\<lambda>f. trace k (heap w) f (indent + 4)) (non_null fs)) v"
    if "heap v = heap w" for fs v
    by (rule for_next_functions_emit [where h = "heap w"]) (simp_all add: Suc.IH that)
  show ?case
  proof (cases "node_of (heap w) a")
    case None
    then show ?thesis
      by (auto simp: node_of_def emit_def split: option.splits)
  next
    case (Some n)
    show ?thesis
    proof (cases "grad_fn (heap w a)")
      case None
      with Some show ?thesis
        by (auto simp: node_of_def print_line_def loop emit_Cons split: option.splits)
    next
      case (Some og)
      with \<open>node_of (heap w) a = Some n\<close> show ?thesis
        by (auto simp: node_of_def print_line_def loop emit_Cons Let_def emit_simps
            split: option.splits)
    qed
  qed
qed

lemma printed_trace: "printed k a indent w = trace k (heap w) a indent"
  by (cases "trace k (heap w) a indent")
     (auto simp: printed_def print_grad_graph_trace emit_def)

section \<open>A value without provenance\<close>

text \<open>
  C4. A value that has no \<open>grad_fn\<close>, or whose \<open>grad_fn\<close> is \<open>None\<close>, and that has no
  \<open>next_functions\<close>: the call returns normally and the world is as before, so nothing was
  printed and nothing was raised.
\<close>

theorem print_grad_graph_no_provenance:
  assumes "grad_fn (heap w tensor) = None \<or> grad_fn (heap w tensor) = Some None"
    and "next_functions (heap w tensor) = None"
  shows "print_grad_graph (Suc k) tensor indent w = Some (Inr (), w)"
  using assms by auto

theorem print_grad_graph_no_provenance_witness:
  "(grad_fn (heap empty_world 0) = None \<or> grad_fn (heap empty_world 0) = Some None)
   \<and> next_functions (heap empty_world 0) = None
   \<and> print_grad_graph (Suc 0) 0 0 empty_world = Some (Inr (), empty_world)"
proof -
  have g: "grad_fn (heap empty_world 0) = None \<or> grad_fn (heap empty_world 0) = Some None"
    by (simp add: empty_world_def blank_def)
  have n: "next_functions (heap empty_world 0) = None"
    by (simp add: empty_world_def blank_def)
  show ?thesis
    using g n print_grad_graph_no_provenance [OF g n, of 0 0] by simp
qed

section \<open>The call only writes to the console\<close>

text \<open>
  C8. A call that returns or raises leaves the world as it was, but for the lines it
  appended to the console: the store of objects is the one before the call. The call has
  no result value (\<open>Inr ()\<close> is Python's \<open>None\<close>).
\<close>

theorem print_grad_graph_frame:
  assumes "print_grad_graph k tensor indent w = Some (r, w')"
  shows "heap w' = heap w \<and> (\<exists>out. w' = w\<lparr>stdout := stdout w @ out\<rparr>)"
proof -
  from assms obtain out where "w' = w\<lparr>stdout := stdout w @ out\<rparr>"
    by (cases "trace k (heap w) tensor indent")
       (auto simp: print_grad_graph_trace emit_def)
  then show ?thesis by auto
qed

theorem print_grad_graph_frame_witness:
  "print_grad_graph 4 3 0 shared_world =
     Some (Inr (), shared_world\<lparr>stdout := [''<AddBackward0>'', ''    <MulBackward0>'',
       ''        <AccumulateGrad>'', ''        <AccumulateGrad>'']\<rparr>)
   \<and> heap (shared_world\<lparr>stdout := [''<AddBackward0>'', ''    <MulBackward0>'',
       ''        <AccumulateGrad>'', ''        <AccumulateGrad>'']\<rparr>) = heap shared_world"
proof -
  have run: "print_grad_graph 4 3 0 shared_world =
     Some (Inr (), shared_world\<lparr>stdout := [''<AddBackward0>'', ''    <MulBackward0>'',
       ''        <AccumulateGrad>'', ''        <AccumulateGrad>'']\<rparr>)"
    by (simp add: eval_nat_numeral shared_world_def blank_def print_line_def spaces_def)
  show ?thesis
    using run print_grad_graph_frame [OF run] by simp
qed

section \<open>The indentation argument\<close>

lemma trace_seq_indent:
  assumes "\<And>c. body' c = map_option (indent_by n) (body c)"
  shows "trace_seq body' cs = map_option (indent_by n) (trace_seq body cs)"
proof (induction cs)
  case Nil
  show ?case by (simp add: indent_by_def)
next
  case (Cons c cs)
  show ?case
  proof (cases "body c")
    case None
    then show ?thesis by (simp add: assms)
  next
    case (Some res)
    obtain out r where res: "res = (out, r)" by (cases res)
    show ?thesis
    proof (cases r)
      case (Inl e)
      with Some res show ?thesis by (simp add: assms indent_by_def)
    next
      case (Inr u)
      with Some res Cons.IH show ?thesis
        by (cases "trace_seq body cs") (auto simp: assms indent_by_def)
    qed
  qed
qed

lemma spaces_add: "0 \<le> i \<Longrightarrow> spaces (i + int n) = replicate n (CHR '' '') @ spaces i"
proof -
  assume "0 \<le> i"
  then have "nat (i + int n) = n + nat i" by simp
  then show ?thesis by (simp add: spaces_def replicate_add)
qed

lemma trace_indent:
  "0 \<le> i \<Longrightarrow> trace k h a (i + int n) = map_option (indent_by n) (trace k h a i)"
proof (induction k arbitrary: a i)
  case 0
  show ?case by simp
next
  case (Suc k)
  have step: "trace k h c (i + int n + 4) = map_option (indent_by n) (trace k h c (i + 4))" for c
  proof -
    have e: "i + int n + 4 = (i + 4) + int n" by simp
    have "0 \<le> i + 4" using Suc.prems by simp
    then show ?thesis unfolding e by (rule Suc.IH)
  qed
  have seq: "trace_seq (\<lambda>f. trace k h f (i + int n + 4)) cs
      = map_option (indent_by n) (trace_seq (\<lambda>f. trace k h f (i + 4)) cs)" for cs
    by (rule trace_seq_indent) (rule step)
  show ?case
  proof (cases "node_of h a")
    case None
    then show ?thesis by (simp add: indent_by_def)
  next
    case (Some m)
    show ?thesis
    proof (cases "next_functions (h m)")
      case None
      with Some Suc.prems show ?thesis by (simp add: indent_by_def spaces_add)
    next
      case (Some fs)
      with \<open>node_of h a = Some m\<close> Suc.prems show ?thesis
        by (cases "trace_seq (\<lambda>f. trace k h f (i + 4)) (non_null fs)")
           (auto simp: seq indent_by_def spaces_add)
    qed
  qed
qed

text \<open>
  C10. A call with initial indentation \<open>n\<close> prints what the call with indentation \<open>0\<close>
  prints, every line \<open>n\<close> spaces further to the right, and ends the same way (also when
  it does not return).
\<close>

theorem print_grad_graph_indent:
  "printed k tensor (int n) w = map_option (indent_by n) (printed k tensor 0 w)"
  using trace_indent [of 0 k "heap w" tensor n] by (simp add: printed_trace)

theorem print_grad_graph_indent_witness:
  "printed 4 3 2 shared_world =
     Some ([''  <AddBackward0>'', ''      <MulBackward0>'',
            ''          <AccumulateGrad>'', ''          <AccumulateGrad>''], Inr ())"
proof -
  have "printed 4 3 0 shared_world =
     Some ([''<AddBackward0>'', ''    <MulBackward0>'',
            ''        <AccumulateGrad>'', ''        <AccumulateGrad>''], Inr ())"
    by (simp add: printed_def eval_nat_numeral shared_world_def blank_def print_line_def
        spaces_def)
  then show ?thesis
    using print_grad_graph_indent [of 4 3 2 shared_world]
    by (simp add: indent_by_def numeral_2_eq_2)
qed

section \<open>Root first, then the links in order\<close>

lemma trace_seq_those:
  assumes "those (map f cs) = Some ts"
    and "\<And>c t. c \<in> set cs \<Longrightarrow> f c = Some t \<Longrightarrow> body c = Some (g t, Inr ())"
  shows "trace_seq body cs = Some (concat (map g ts), Inr ())"
  using assms
proof (induction cs arbitrary: ts)
  case Nil
  then show ?case by simp
next
  case (Cons c cs)
  from Cons.prems(1) obtain t ts' where t: "f c = Some t" and ts': "those (map f cs) = Some ts'"
    and ts: "ts = t # ts'"
    by (auto split: option.splits)
  have "body c = Some (g t, Inr ())" using Cons.prems(2) t by simp
  moreover have "trace_seq body cs = Some (concat (map g ts'), Inr ())"
    using Cons.IH [OF ts'] Cons.prems(2) by simp
  ultimately show ?case using ts by simp
qed

lemma trace_tree_of:
  "tree_of k h a = Some t \<Longrightarrow> trace k h a (int ind) = Some (preorder ind t, Inr ())"
proof (induction k arbitrary: a t ind)
  case 0
  then show ?case by simp
next
  case (Suc k)
  from Suc.prems obtain m fs ts where m: "node_of h a = Some m"
    and fs: "next_functions (h m) = Some fs"
    and ts: "those (map (tree_of k h) (non_null fs)) = Some ts"
    and t: "t = Tree (str (h m)) ts"
    by (auto split: option.splits)
  have "trace_seq (\<lambda>f. trace k h f (int ind + 4)) (non_null fs)
      = Some (concat (map (preorder (ind + 4)) ts), Inr ())"
  proof (rule trace_seq_those [OF ts])
    fix c t' assume "tree_of k h c = Some t'"
    from Suc.IH [OF this, of "ind + 4"]
    show "trace k h c (int ind + 4) = Some (preorder (ind + 4) t', Inr ())"
      by (simp add: add.commute)
  qed
  with m fs t show ?case by (simp add: spaces_def)
qed

text \<open>
  C3. When the graph under a value unfolds to the tree \<open>t\<close> (every link that is not \<open>None\<close>
  leads to a node, and the links that are \<open>None\<close> are left out), the call returns normally
  and prints \<open>t\<close> root first: the node at the current indentation, then the subtrees of
  its links in order, each four spaces further in.
\<close>

theorem print_grad_graph_preorder:
  assumes "tree_of k (heap w) tensor = Some t"
  shows "printed k tensor (int ind) w = Some (preorder ind t, Inr ())"
  using assms by (simp add: printed_trace trace_tree_of)

text \<open>The last cell of the notebook: the seven lines kept in its output.\<close>

theorem print_grad_graph_preorder_witness:
  "tree_of 6 (heap (snd (loss_cell False))) 15 =
     Some (Tree ''<MeanBackward0>'' [Tree ''<AbsBackward0>'' [Tree ''<SubBackward0>''
       [Tree ''<AddBackward0>''
          [Tree ''<MulBackward0>'' [Tree ''<AccumulateGrad>'' []],
           Tree ''<AccumulateGrad>'' []]]]])
   \<and> printed 6 15 0 (snd (loss_cell False)) =
     Some ([''<MeanBackward0>'',
            ''    <AbsBackward0>'',
            ''        <SubBackward0>'',
            ''            <AddBackward0>'',
            ''                <MulBackward0>'',
            ''                    <AccumulateGrad>'',
            ''                <AccumulateGrad>''], Inr ())"
proof -
  have t: "tree_of 6 (heap (snd (loss_cell False))) 15 =
     Some (Tree ''<MeanBackward0>'' [Tree ''<AbsBackward0>'' [Tree ''<SubBackward0>''
       [Tree ''<AddBackward0>''
          [Tree ''<MulBackward0>'' [Tree ''<AccumulateGrad>'' []],
           Tree ''<AccumulateGrad>'' []]]]])"
    by (simp add: loss_cell_def setup_cell_def init_def empty_world_def forward_def L1Loss_def
        tensor_mul_def tensor_add_def tensor_sub_def tensor_abs_def tensor_mean_def
        apply_op_def gradient_edge_def new_node_def new_tensor_def alloc_def Let_def
        eval_nat_numeral node_of_def)
  show ?thesis
    using t print_grad_graph_preorder [OF t, of 0] by (simp add: eval_nat_numeral)
qed

section \<open>Termination on a finite acyclic graph\<close>

lemma trace_seq_mono:
  assumes "\<And>c r. c \<in> set cs \<Longrightarrow> body c = Some r \<Longrightarrow> body' c = Some r"
    and "trace_seq body cs = Some r"
  shows "trace_seq body' cs = Some r"
  using assms
proof (induction cs arbitrary: r)
  case Nil
  then show ?case by simp
next
  case (Cons c cs)
  from Cons.prems(2) obtain out e where b: "body c = Some (out, e)"
    by (cases "body c") auto
  then have b': "body' c = Some (out, e)" using Cons.prems(1) by simp
  show ?case
  proof (cases e)
    case (Inl x)
    with b Cons.prems(2) have "r = (out, Inl x)" by simp
    with b' Inl show ?thesis by simp
  next
    case (Inr u)
    with b Cons.prems(2) obtain r' where r': "trace_seq body cs = Some r'"
      by (cases "trace_seq body cs") auto
    have "trace_seq body' cs = Some r'"
      using Cons.IH [OF _ r'] Cons.prems(1) by simp
    with b b' Inr r' Cons.prems(2) show ?thesis by simp
  qed
qed

lemma trace_Suc_mono: "trace k h a i = Some r \<Longrightarrow> trace (Suc k) h a i = Some r"
proof (induction k arbitrary: a i r)
  case 0
  then show ?case by simp
next
  case (Suc k)
  have seq: "trace_seq (\<lambda>f. trace (Suc k) h f (i + 4)) cs = Some r'"
    if "trace_seq (\<lambda>f. trace k h f (i + 4)) cs = Some r'" for cs r'
    using that by (rule trace_seq_mono [rotated]) (rule Suc.IH)
  from Suc.prems show ?case
    by (cases "node_of h a"; cases "next_functions (h (the (node_of h a)))")
       (auto simp del: trace.simps(2) simp add: trace.simps(2) [of k] trace.simps(2) [of "Suc k"] dest!: seq)
qed

lemma trace_mono: "k \<le> k' \<Longrightarrow> trace k h a i = Some r \<Longrightarrow> trace k' h a i = Some r"
proof (induction k' rule: dec_induct)
  case base
  then show ?case .
next
  case (step n)
  then show ?case by (blast intro: trace_Suc_mono)
qed

lemma trace_seq_total:
  "(\<And>c. c \<in> set cs \<Longrightarrow> body c \<noteq> None) \<Longrightarrow> trace_seq body cs \<noteq> None"
proof (induction cs)
  case Nil
  show ?case by simp
next
  case (Cons c cs)
  have "body c \<noteq> None" using Cons.prems by simp
  then obtain out e where "body c = Some (out, e)" by (cases "body c") auto
  moreover have "trace_seq body cs \<noteq> None" using Cons by simp
  ultimately show ?case by (cases e) auto
qed

lemma common_depth:
  assumes "\<And>c. c \<in> set cs \<Longrightarrow> \<exists>k. \<forall>i. trace k h c i \<noteq> None"
  shows "\<exists>K. \<forall>c \<in> set cs. \<forall>i. trace K h c i \<noteq> None"
  using assms
proof (induction cs)
  case Nil
  show ?case by simp
next
  case (Cons c cs)
  have "\<exists>K. \<forall>c \<in> set cs. \<forall>i. trace K h c i \<noteq> None"
    by (rule Cons.IH) (rule Cons.prems, simp)
  then obtain K where K: "\<forall>c \<in> set cs. \<forall>i. trace K h c i \<noteq> None" ..
  have "\<exists>k. \<forall>i. trace k h c i \<noteq> None" by (rule Cons.prems) simp
  then obtain k where k: "\<forall>i. trace k h c i \<noteq> None" ..
  have "\<forall>i. trace (max k K) h d i \<noteq> None" if "d \<in> set (c # cs)" for d
  proof
    fix i
    have "\<exists>k0 r. k0 \<le> max k K \<and> trace k0 h d i = Some r"
    proof (cases "d = c")
      case True
      with k obtain r where "trace k h d i = Some r" by blast
      then show ?thesis by (intro exI [of _ k]) simp
    next
      case False
      with that K obtain r where "trace K h d i = Some r" by fastforce
      then show ?thesis by (intro exI [of _ K]) simp
    qed
    then obtain k0 r where "k0 \<le> max k K" "trace k0 h d i = Some r" by blast
    then have "trace (max k K) h d i = Some r" by (rule trace_mono)
    then show "trace (max k K) h d i \<noteq> None" by simp
  qed
  then show ?case by blast
qed

lemma trace_links:
  "\<forall>c \<in> set (links h a). \<forall>i. trace K h c i \<noteq> None \<Longrightarrow> trace (Suc K) h a i \<noteq> None"
proof -
  assume ch: "\<forall>c \<in> set (links h a). \<forall>i. trace K h c i \<noteq> None"
  show ?thesis
  proof (cases "node_of h a")
    case None
    then show ?thesis by simp
  next
    case (Some m)
    show ?thesis
    proof (cases "next_functions (h m)")
      case None
      with Some show ?thesis by simp
    next
      case (Some fs)
      with \<open>node_of h a = Some m\<close> have l: "links h a = non_null fs" by (simp add: links_def)
      have "trace_seq (\<lambda>f. trace K h f (i + 4)) (non_null fs) \<noteq> None"
        by (rule trace_seq_total) (use ch l in simp)
      with Some \<open>node_of h a = Some m\<close> show ?thesis by simp
    qed
  qed
qed

lemma trace_terminates:
  assumes "finite (edges_from h a)" and "acyclic (edges_from h a)"
  shows "\<exists>k. \<forall>i. trace k h a i \<noteq> None"
proof -
  have w: "wf ((edges_from h a)\<inverse>)"
    using assms by (rule finite_acyclic_wf_converse)
  have "(a, x) \<in> (edges h)\<^sup>* \<longrightarrow> (\<exists>k. \<forall>i. trace k h x i \<noteq> None)" for x
    using w
  proof (induction x rule: wf_induct_rule)
    case (less x)
    show ?case
    proof
      assume r: "(a, x) \<in> (edges h)\<^sup>*"
      have "\<exists>k. \<forall>i. trace k h c i \<noteq> None" if "c \<in> set (links h x)" for c
      proof -
        have e: "(x, c) \<in> edges h" using that by (simp add: edges_def)
        with r have "(c, x) \<in> (edges_from h a)\<inverse>" by (simp add: edges_from_def)
        moreover from r e have "(a, c) \<in> (edges h)\<^sup>*" by (rule rtrancl_into_rtrancl)
        ultimately show ?thesis using less by blast
      qed
      then obtain K where "\<forall>c \<in> set (links h x). \<forall>i. trace K h c i \<noteq> None"
        using common_depth by blast
      then have "\<forall>i. trace (Suc K) h x i \<noteq> None" using trace_links by blast
      then show "\<exists>k. \<forall>i. trace k h x i \<noteq> None" ..
    qed
  qed
  then show ?thesis by blast
qed

lemma decreasing_links_dag:
  assumes "\<And>x c. c \<in> set (links h x) \<Longrightarrow> c < x \<and> x < n"
  shows "finite (edges_from h a) \<and> acyclic (edges_from h a)"
proof -
  have sub: "edges_from h a \<subseteq> edges h" by (auto simp: edges_from_def)
  have e: "edges h \<subseteq> {(x, c). c < x \<and> x < n}" using assms by (auto simp: edges_def)
  have "{(x, c). c < x \<and> x < n} \<subseteq> {..<n} \<times> {..<n}" by auto
  then have "finite {(x, c). c < x \<and> x < n}" by (rule finite_subset) simp
  with sub e have f: "finite (edges_from h a)" by (meson finite_subset)
  have "(edges_from h a)\<inverse> \<subseteq> less_than" using sub e by auto
  then have "wf ((edges_from h a)\<inverse>)" by (rule wf_subset [OF wf_less_than])
  then have "acyclic ((edges_from h a)\<inverse>)" by (rule wf_acyclic)
  then have "acyclic (edges_from h a)" by simp
  with f show ?thesis ..
qed

text \<open>
  C7. When the links that can be reached from the value form a finite graph without a
  cycle, the call ends (it returns or raises) at some depth of recursion.
\<close>

theorem print_grad_graph_terminates:
  assumes "finite (edges_from (heap w) tensor)" and "acyclic (edges_from (heap w) tensor)"
  shows "\<exists>k r w'. print_grad_graph k tensor indent w = Some (r, w')"
proof -
  from trace_terminates [OF assms] obtain k where "trace k (heap w) tensor indent \<noteq> None"
    by blast
  then obtain out r where "trace k (heap w) tensor indent = Some (out, r)" by auto
  then have "print_grad_graph k tensor indent w = Some (r, w\<lparr>stdout := stdout w @ out\<rparr>)"
    by (simp add: print_grad_graph_trace emit_simps)
  then show ?thesis by blast
qed

lemma shared_links_eq:
  "links (heap shared_world) x = (if x = 3 \<or> x = 2 then [1] else if x = 1 then [0, 0] else [])"
  by (simp add: links_def node_of_def shared_world_def blank_def)

lemma shared_links: "c \<in> set (links (heap shared_world) x) \<Longrightarrow> c < x \<and> x < 4"
  unfolding shared_links_eq by (cases "x = 3 \<or> x = 2"; cases "x = 1") auto

theorem print_grad_graph_terminates_witness:
  "finite (edges_from (heap shared_world) 3) \<and> acyclic (edges_from (heap shared_world) 3)
   \<and> (\<exists>k r w'. print_grad_graph k 3 0 shared_world = Some (r, w'))"
proof -
  have d: "finite (edges_from (heap shared_world) 3) \<and> acyclic (edges_from (heap shared_world) 3)"
    by (rule decreasing_links_dag [where n = 4]) (rule shared_links)
  then have f: "finite (edges_from (heap shared_world) 3)"
    and a: "acyclic (edges_from (heap shared_world) 3)" by simp_all
  show ?thesis
    using d print_grad_graph_terminates [OF f a, of 0] by simp
qed

text \<open>
  Nothing in the code looks for a cycle: on a node that links to itself the call does not
  end at any depth.
\<close>

lemma looping_trace: "trace k (heap looping_world) 0 i = None"
proof (induction k arbitrary: i)
  case 0
  show ?case by simp
next
  case (Suc k)
  have "node_of (heap looping_world) 0 = Some 0"
    by (simp add: looping_world_def blank_def node_of_def)
  moreover have "next_functions (heap looping_world 0) = Some [(Some 0, 0)]"
    by (simp add: looping_world_def blank_def)
  ultimately show ?case using Suc by simp
qed

lemma print_grad_graph_cycle: "print_grad_graph k 0 indent looping_world = None"
  by (simp add: print_grad_graph_trace looping_trace emit_simps)

text \<open>A raise can only come from a \<open>grad_fn\<close> that has no \<open>next_functions\<close>.\<close>

lemma trace_seq_no_raise:
  assumes "\<And>c out e. c \<in> set cs \<Longrightarrow> body c \<noteq> Some (out, Inl e)"
  shows "trace_seq body cs \<noteq> Some (out, Inl e)"
  using assms
proof (induction cs arbitrary: out)
  case Nil
  show ?case by simp
next
  case (Cons c cs)
  show ?case
  proof (cases "body c")
    case None
    then show ?thesis by simp
  next
    case (Some res)
    obtain o1 r where res: "res = (o1, r)" by (cases res)
    show ?thesis
    proof (cases r)
      case (Inl e')
      with Some res Cons.prems [of c o1 e'] show ?thesis by simp
    next
      case (Inr u)
      have "trace_seq body cs \<noteq> Some (o2, Inl e)" for o2
        by (rule Cons.IH) (rule Cons.prems, simp)
      with Some res Inr show ?thesis
        by (cases "trace_seq body cs") auto
    qed
  qed
qed

lemma trace_no_raise:
  assumes "\<And>a g. grad_fn (h a) = Some (Some g) \<Longrightarrow> next_functions (h g) \<noteq> None"
  shows "trace k h a i \<noteq> Some (out, Inl e)"
proof (induction k arbitrary: a i out e)
  case 0
  show ?case by simp
next
  case (Suc k)
  show ?case
  proof (cases "node_of h a")
    case None
    then show ?thesis by simp
  next
    case (Some n)
    then have "next_functions (h n) \<noteq> None"
      using assms by (auto simp: node_of_def split: option.splits)
    then obtain fs where fs: "next_functions (h n) = Some fs" by auto
    have "trace_seq (\<lambda>f. trace k h f (i + 4)) (non_null fs) \<noteq> Some (o2, Inl e)" for o2
      by (rule trace_seq_no_raise) (rule Suc.IH)
    with Some fs show ?thesis
      by (cases "trace_seq (\<lambda>f. trace k h f (i + 4)) (non_null fs)") auto
  qed
qed

text \<open>
  When, moreover, every \<open>grad_fn\<close> in the store is a node (it has \<open>next_functions\<close>), as
  the library guarantees, nothing is raised: the call returns normally at some depth.
\<close>

lemma print_grad_graph_returns:
  assumes "finite (edges_from (heap w) tensor)" and "acyclic (edges_from (heap w) tensor)"
    and "\<And>a g. grad_fn (heap w a) = Some (Some g) \<Longrightarrow> next_functions (heap w g) \<noteq> None"
  shows "\<exists>k out. printed k tensor indent w = Some (out, Inr ())"
proof -
  from trace_terminates [OF assms(1,2)] obtain k where "trace k (heap w) tensor indent \<noteq> None"
    by blast
  then obtain out r where t: "trace k (heap w) tensor indent = Some (out, r)" by auto
  have "r = Inr ()"
  proof (cases r)
    case (Inl e)
    with t trace_no_raise [of "heap w" k tensor indent out e] assms(3) show ?thesis by blast
  next
    case (Inr u)
    then show ?thesis by simp
  qed
  with t show ?thesis by (auto simp: printed_trace)
qed

section \<open>One line for every path\<close>

lemma map_index: "map f xs = map (\<lambda>j. f (xs ! j)) [0..<length xs]"
  by (rule nth_equalityI) simp_all

lemma trace_seq_normal:
  assumes "trace_seq body cs = Some (out, Inr ())"
  shows "(\<forall>c \<in> set cs. \<exists>ot. body c = Some (ot, Inr ())) \<and> out = concat (map (\<lambda>c. fst (the (body c))) cs)"
  using assms
proof (induction cs arbitrary: out)
  case Nil
  then show ?case by simp
next
  case (Cons c cs)
  from Cons.prems obtain o1 e where b: "body c = Some (o1, e)"
    by (cases "body c") auto
  with Cons.prems have e: "e = Inr ()" by (cases e) auto
  with b Cons.prems obtain o2 where s: "trace_seq body cs = Some (o2, Inr ())" and out: "out = o1 @ o2"
    by (cases "trace_seq body cs") auto
  from Cons.IH [OF s] b e out show ?case by simp
qed

lemma trace_normal_links:
  assumes "trace (Suc k) h a i = Some (out, Inr ())" and "node_of h a = Some n"
  shows "(\<forall>c \<in> set (links h a). \<exists>ot. trace k h c (i + 4) = Some (ot, Inr ()))
    \<and> out = (spaces i @ str (h n)) # concat (map (\<lambda>c. fst (the (trace k h c (i + 4)))) (links h a))"
proof (cases "next_functions (h n)")
  case None
  with assms show ?thesis by simp
next
  case (Some fs)
  with assms(2) have l: "links h a = non_null fs" by (simp add: links_def)
  from assms Some obtain o' where s: "trace_seq (\<lambda>f. trace k h f (i + 4)) (links h a) = Some (o', Inr ())"
    and out: "out = (spaces i @ str (h n)) # o'"
    by (cases "trace_seq (\<lambda>f. trace k h f (i + 4)) (non_null fs)") (auto simp: l)
  from trace_seq_normal [OF s] out show ?thesis by simp
qed

lemma path_line_Cons:
  "j < length (links h a) \<Longrightarrow> path_line h a i (j # p) = path_line h (links h a ! j) (i + 4) p"
  by (simp add: path_line_def algebra_simps)

lemma trace_paths:
  "trace k h a i = Some (out, Inr ()) \<Longrightarrow> out = map (path_line h a i) (paths k h a)"
proof (induction k arbitrary: a i out)
  case 0
  then show ?case by simp
next
  case (Suc k)
  show ?case
  proof (cases "node_of h a")
    case None
    with Suc.prems show ?thesis by simp
  next
    case (Some n)
    let ?cs = "links h a"
    from trace_normal_links [OF Suc.prems Some]
    have ch: "\<forall>c \<in> set ?cs. \<exists>ot. trace k h c (i + 4) = Some (ot, Inr ())"
      and out: "out = (spaces i @ str (h n)) # concat (map (\<lambda>c. fst (the (trace k h c (i + 4)))) ?cs)"
      by simp_all
    have g: "fst (the (trace k h c (i + 4))) = map (path_line h c (i + 4)) (paths k h c)"
      if "c \<in> set ?cs" for c
    proof -
      from ch that obtain o' where o': "trace k h c (i + 4) = Some (o', Inr ())" by blast
      from Suc.IH [OF o'] o' show ?thesis by simp
    qed
    have "map (\<lambda>c. fst (the (trace k h c (i + 4)))) ?cs
        = map (\<lambda>c. map (path_line h c (i + 4)) (paths k h c)) ?cs"
      by (rule map_cong) (simp_all add: g)
    also have "\<dots> = map (\<lambda>j. map (path_line h (?cs ! j) (i + 4)) (paths k h (?cs ! j))) [0..<length ?cs]"
      by (rule map_index)
    also have "\<dots> = map (\<lambda>j. map (path_line h a i) (map ((#) j) (paths k h (?cs ! j)))) [0..<length ?cs]"
      by (rule map_cong) (simp_all add: path_line_Cons comp_def)
    finally have "concat (map (\<lambda>c. fst (the (trace k h c (i + 4)))) ?cs)
        = map (path_line h a i) (concat (map (\<lambda>j. map ((#) j) (paths k h (?cs ! j))) [0..<length ?cs]))"
      by (simp add: map_concat comp_def)
    with out Some show ?thesis by (simp add: path_line_def)
  qed
qed

lemma distinct_concat_map:
  assumes "distinct js" and "\<And>j. j \<in> set js \<Longrightarrow> distinct (f j)"
    and "\<And>j j'. j \<in> set js \<Longrightarrow> j' \<in> set js \<Longrightarrow> j \<noteq> j' \<Longrightarrow> set (f j) \<inter> set (f j') = {}"
  shows "distinct (concat (map f js))"
  using assms
proof (induction js)
  case Nil
  show ?case by simp
next
  case (Cons j js)
  have "distinct (concat (map f js))"
    by (rule Cons.IH) (use Cons.prems in auto)
  moreover have "distinct (f j)" using Cons.prems(2) by simp
  moreover have "set (f j) \<inter> set (f j') = {}" if "j' \<in> set js" for j'
    using Cons.prems(1) Cons.prems(3) [of j j'] that by auto
  ultimately show ?case by auto
qed

lemma distinct_paths: "distinct (paths k h a)"
proof (induction k arbitrary: a)
  case 0
  show ?case by simp
next
  case (Suc k)
  have "distinct (concat (map (\<lambda>j. map ((#) j) (paths k h (links h a ! j))) [0..<length (links h a)]))"
    by (rule distinct_concat_map) (auto simp: distinct_map Suc.IH)
  then show ?case by (auto split: option.splits)
qed

lemma paths_walk: "p \<in> set (paths k h a) \<Longrightarrow> walk h a p \<noteq> None"
proof (induction k arbitrary: a p)
  case 0
  then show ?case by simp
next
  case (Suc k)
  show ?case
  proof (cases "node_of h a")
    case None
    with Suc.prems show ?thesis by simp
  next
    case (Some n)
    show ?thesis
    proof (cases p)
      case Nil
      with Some show ?thesis by simp
    next
      case (Cons j p')
      with Suc.prems Some have j: "j < length (links h a)"
        and "p' \<in> set (paths k h (links h a ! j))"
        by auto
      with Suc.IH Cons show ?thesis by simp
    qed
  qed
qed

lemma walk_paths:
  "trace k h a i = Some (out, Inr ()) \<Longrightarrow> walk h a p \<noteq> None \<Longrightarrow> p \<in> set (paths k h a)"
proof (induction k arbitrary: a i out p)
  case 0
  then show ?case by simp
next
  case (Suc k)
  show ?case
  proof (cases p)
    case Nil
    with Suc.prems(2) show ?thesis by auto
  next
    case (Cons j p')
    with Suc.prems(2) have j: "j < length (links h a)" and w: "walk h (links h a ! j) p' \<noteq> None"
      by (auto split: if_splits)
    from j obtain n where n: "node_of h a = Some n"
      by (cases "node_of h a") (auto simp: links_def)
    from trace_normal_links [OF Suc.prems(1) n] j
    obtain o' where "trace k h (links h a ! j) (i + 4) = Some (o', Inr ())"
      by (meson nth_mem)
    from Suc.IH [OF this w] have "p' \<in> set (paths k h (links h a ! j))" .
    with j n Cons show ?thesis by auto
  qed
qed

text \<open>
  C9. The call keeps no record of the nodes it has printed. When it returns normally, its
  lines are, in order, the lines of a list \<open>ps\<close> that holds every path from the value to
  a node exactly once (a path being the sequence of the links taken, none of them
  \<open>None\<close>); the line of a path shows the node the path ends in. So a node that \<open>k\<close> paths
  end in has \<open>k\<close> lines: the text is the tree the graph unfolds to.
\<close>

theorem print_grad_graph_paths:
  assumes "printed k tensor indent w = Some (out, Inr ())"
  shows "\<exists>ps. distinct ps \<and> set ps = {p. walk (heap w) tensor p \<noteq> None}
           \<and> out = map (path_line (heap w) tensor indent) ps
           \<and> (\<forall>n. length (filter (\<lambda>p. walk (heap w) tensor p = Some n) ps)
                   = card {p. walk (heap w) tensor p = Some n})"
proof -
  let ?h = "heap w"
  let ?ps = "paths k ?h tensor"
  from assms have t: "trace k ?h tensor indent = Some (out, Inr ())" by (simp add: printed_trace)
  have d: "distinct ?ps" by (rule distinct_paths)
  have s: "set ?ps = {p. walk ?h tensor p \<noteq> None}"
    using paths_walk walk_paths [OF t] by blast
  have om: "out = map (path_line ?h tensor indent) ?ps" using t by (rule trace_paths)
  have "length (filter (\<lambda>p. walk ?h tensor p = Some n) ?ps) = card {p. walk ?h tensor p = Some n}" for n
  proof -
    have "set (filter (\<lambda>p. walk ?h tensor p = Some n) ?ps) = {p. walk ?h tensor p = Some n}"
      using s by auto
    moreover have "distinct (filter (\<lambda>p. walk ?h tensor p = Some n) ?ps)" using d by simp
    ultimately show ?thesis using distinct_card by fastforce
  qed
  with d s om show ?thesis by blast
qed

theorem print_grad_graph_paths_witness:
  "printed 4 3 0 shared_world =
     Some ([''<AddBackward0>'', ''    <MulBackward0>'',
            ''        <AccumulateGrad>'', ''        <AccumulateGrad>''], Inr ())
   \<and> (\<exists>ps. distinct ps \<and> set ps = {p. walk (heap shared_world) 3 p \<noteq> None}
        \<and> [''<AddBackward0>'', ''    <MulBackward0>'',
            ''        <AccumulateGrad>'', ''        <AccumulateGrad>'']
          = map (path_line (heap shared_world) 3 0) ps
        \<and> (\<forall>n. length (filter (\<lambda>p. walk (heap shared_world) 3 p = Some n) ps)
                = card {p. walk (heap shared_world) 3 p = Some n}))"
proof -
  have run: "printed 4 3 0 shared_world =
     Some ([''<AddBackward0>'', ''    <MulBackward0>'',
            ''        <AccumulateGrad>'', ''        <AccumulateGrad>''], Inr ())"
    by (simp add: printed_def eval_nat_numeral shared_world_def blank_def print_line_def
        spaces_def)
  show ?thesis
    using run print_grad_graph_paths [OF run] by simp
qed

text \<open>
  In that store two paths end in the leaf marker at address 0, through the first and
  through the second link of the product, and it has two lines.
\<close>

lemma shared_leaf_paths:
  "walk (heap shared_world) 3 [0, 0] = Some 0 \<and> walk (heap shared_world) 3 [0, 1] = Some 0"
proof -
  have "node_of (heap shared_world) 0 = Some 0"
    by (simp add: node_of_def shared_world_def blank_def)
  then show ?thesis by (simp add: shared_links_eq)
qed

section \<open>The graph that the model and the loss record\<close>

lemmas torch_defs = tensor_mul_def tensor_add_def tensor_sub_def tensor_abs_def
  tensor_mean_def apply_op_def gradient_edge_def new_node_def new_tensor_def alloc_def
  Let_def

lemma forward_links:
  assumes "original w (weights m)" and "requires_grad (heap w (weights m))"
    and "original w (bias m)" and "requires_grad (heap w (bias m))"
    and "original w x"
  shows "case forward m x w of (y, w') \<Rightarrow>
    (\<exists>add mul accw accb xl.
      grad_fn (heap w' y) = Some (Some add)
    \<and> cls (heap w' add) = ''AddBackward0''
    \<and> next_functions (heap w' add) = Some [(Some mul, 0), (Some accb, 0)]
    \<and> cls (heap w' mul) = ''MulBackward0''
    \<and> leaf_marker (heap w') accb (bias m)
    \<and> next_functions (heap w' mul) = Some [(Some accw, 0), (xl, 0)]
    \<and> leaf_marker (heap w') accw (weights m)
    \<and> (if requires_grad (heap w x) then \<exists>accx. xl = Some accx \<and> leaf_marker (heap w') accx x
        else xl = None))"
  using assms
  by (cases "requires_grad (heap w x)")
     (simp_all add: forward_def torch_defs original_def leaf_marker_def)

lemma loss_links:
  assumes "original w (weights m)" and "requires_grad (heap w (weights m))"
    and "original w (bias m)" and "requires_grad (heap w (bias m))"
    and "original w x"
    and "original w y_true" and "\<not> requires_grad (heap w y_true)"
  shows "case forward m x w of (y_pred, w1) \<Rightarrow> (case L1Loss y_pred y_true w1 of (loss, w2) \<Rightarrow>
   (\<exists>mean ab sub add.
      grad_fn (heap w2 loss) = Some (Some mean)
    \<and> cls (heap w2 mean) = ''MeanBackward0''
    \<and> next_functions (heap w2 mean) = Some [(Some ab, 0)]
    \<and> cls (heap w2 ab) = ''AbsBackward0''
    \<and> next_functions (heap w2 ab) = Some [(Some sub, 0)]
    \<and> cls (heap w2 sub) = ''SubBackward0''
    \<and> next_functions (heap w2 sub) = Some [(Some add, 0), (None, 0)]
    \<and> cls (heap w2 add) = ''AddBackward0''
    \<and> grad_fn (heap w2 y_pred) = Some (Some add)))"
  using assms
  by (cases "requires_grad (heap w x)")
     (simp_all add: forward_def L1Loss_def torch_defs original_def)

lemma setup_cell_value:
  "setup_cell t = ((\<lparr>weights = 0, bias = Suc 0\<rparr>, Suc (Suc 0), Suc (Suc (Suc 0))), snd (setup_cell t))"
  by (simp add: setup_cell_def init_def empty_world_def torch_defs)

lemma setup_cell_original:
  "original (snd (setup_cell t)) 0" "requires_grad (heap (snd (setup_cell t)) 0)"
  "original (snd (setup_cell t)) (Suc 0)" "requires_grad (heap (snd (setup_cell t)) (Suc 0))"
  "original (snd (setup_cell t)) (Suc (Suc 0))"
  "requires_grad (heap (snd (setup_cell t)) (Suc (Suc 0))) = t"
  "original (snd (setup_cell t)) (Suc (Suc (Suc 0)))"
  "\<not> requires_grad (heap (snd (setup_cell t)) (Suc (Suc (Suc 0))))"
  by (simp_all add: setup_cell_def init_def empty_world_def torch_defs original_def)

text \<open>
  C1. With both parameters original tensors that are tracked, and \<open>x\<close> an original
  tensor: the \<open>grad_fn\<close> of \<open>forward(x)\<close> is an add-node whose links are a multiply-node
  and a leaf marker for the bias; the links of the multiply-node are a leaf marker for the
  weight and, for \<open>x\<close>, \<open>None\<close> when \<open>x\<close> is not tracked and a leaf marker for \<open>x\<close> when it
  is.
\<close>

theorem forward_graph:
  assumes "original w (weights m)" and "requires_grad (heap w (weights m))"
    and "original w (bias m)" and "requires_grad (heap w (bias m))"
    and "original w x"
    and "forward m x w = (y, w')"
  shows "\<exists>add mul accw accb xl.
      grad_fn (heap w' y) = Some (Some add)
    \<and> cls (heap w' add) = ''AddBackward0''
    \<and> next_functions (heap w' add) = Some [(Some mul, 0), (Some accb, 0)]
    \<and> cls (heap w' mul) = ''MulBackward0''
    \<and> leaf_marker (heap w') accb (bias m)
    \<and> next_functions (heap w' mul) = Some [(Some accw, 0), (xl, 0)]
    \<and> leaf_marker (heap w') accw (weights m)
    \<and> (if requires_grad (heap w x) then \<exists>accx. xl = Some accx \<and> leaf_marker (heap w') accx x
        else xl = None)"
  using forward_links [OF assms(1-5)] assms(6) by simp

theorem forward_graph_witness:
  "original (snd (setup_cell False)) 0 \<and> requires_grad (heap (snd (setup_cell False)) 0)
   \<and> original (snd (setup_cell False)) 1 \<and> requires_grad (heap (snd (setup_cell False)) 1)
   \<and> original (snd (setup_cell False)) 2
   \<and> (\<exists>add mul accw accb.
      grad_fn (heap (snd (forward \<lparr>weights = 0, bias = 1\<rparr> 2 (snd (setup_cell False))))
          (fst (forward \<lparr>weights = 0, bias = 1\<rparr> 2 (snd (setup_cell False))))) = Some (Some add)
    \<and> cls (heap (snd (forward \<lparr>weights = 0, bias = 1\<rparr> 2 (snd (setup_cell False)))) add)
        = ''AddBackward0''
    \<and> next_functions (heap (snd (forward \<lparr>weights = 0, bias = 1\<rparr> 2 (snd (setup_cell False)))) add)
        = Some [(Some mul, 0), (Some accb, 0)]
    \<and> next_functions (heap (snd (forward \<lparr>weights = 0, bias = 1\<rparr> 2 (snd (setup_cell False)))) mul)
        = Some [(Some accw, 0), (None, 0)])"
proof -
  let ?w = "snd (setup_cell False)"
  let ?m = "\<lparr>weights = 0, bias = 1\<rparr>"
  have h: "original ?w (weights ?m)" "requires_grad (heap ?w (weights ?m))"
    "original ?w (bias ?m)" "requires_grad (heap ?w (bias ?m))" "original ?w 2"
    using setup_cell_original [of False] by (simp_all add: numeral_2_eq_2)
  have f: "forward ?m 2 ?w = (fst (forward ?m 2 ?w), snd (forward ?m 2 ?w))" by simp
  have x: "\<not> requires_grad (heap ?w 2)"
    using setup_cell_original(6) [of False] by (simp add: numeral_2_eq_2)
  from forward_graph [OF h f] x h show ?thesis by auto
qed

text \<open>
  C2. With also \<open>y_true\<close> an original tensor that is not tracked: the \<open>grad_fn\<close> of the loss
  is a mean-node with one link, to an abs-node with one link, to a sub-node with two links:
  the add-node that is the \<open>grad_fn\<close> of the prediction, and \<open>None\<close> for \<open>y_true\<close>.
\<close>

theorem loss_graph:
  assumes "original w (weights m)" and "requires_grad (heap w (weights m))"
    and "original w (bias m)" and "requires_grad (heap w (bias m))"
    and "original w x"
    and "original w y_true" and "\<not> requires_grad (heap w y_true)"
    and "forward m x w = (y_pred, w1)"
    and "L1Loss y_pred y_true w1 = (loss, w2)"
  shows "\<exists>mean ab sub add.
      grad_fn (heap w2 loss) = Some (Some mean)
    \<and> cls (heap w2 mean) = ''MeanBackward0''
    \<and> next_functions (heap w2 mean) = Some [(Some ab, 0)]
    \<and> cls (heap w2 ab) = ''AbsBackward0''
    \<and> next_functions (heap w2 ab) = Some [(Some sub, 0)]
    \<and> cls (heap w2 sub) = ''SubBackward0''
    \<and> next_functions (heap w2 sub) = Some [(Some add, 0), (None, 0)]
    \<and> cls (heap w2 add) = ''AddBackward0''
    \<and> grad_fn (heap w2 y_pred) = Some (Some add)"
  using loss_links [OF assms(1-7)] assms(8,9) by simp

theorem loss_graph_witness:
  "original (snd (setup_cell False)) 0 \<and> requires_grad (heap (snd (setup_cell False)) 0)
   \<and> original (snd (setup_cell False)) 1 \<and> requires_grad (heap (snd (setup_cell False)) 1)
   \<and> original (snd (setup_cell False)) 2
   \<and> original (snd (setup_cell False)) 3 \<and> \<not> requires_grad (heap (snd (setup_cell False)) 3)
   \<and> (\<exists>mean ab sub add.
      grad_fn (heap (snd (loss_cell False)) 15) = Some (Some mean)
    \<and> cls (heap (snd (loss_cell False)) mean) = ''MeanBackward0''
    \<and> next_functions (heap (snd (loss_cell False)) mean) = Some [(Some ab, 0)]
    \<and> cls (heap (snd (loss_cell False)) ab) = ''AbsBackward0''
    \<and> next_functions (heap (snd (loss_cell False)) ab) = Some [(Some sub, 0)]
    \<and> cls (heap (snd (loss_cell False)) sub) = ''SubBackward0''
    \<and> next_functions (heap (snd (loss_cell False)) sub) = Some [(Some add, 0), (None, 0)]
    \<and> cls (heap (snd (loss_cell False)) add) = ''AddBackward0''
    \<and> grad_fn (heap (snd (loss_cell False)) 9) = Some (Some add))"
proof -
  let ?w = "snd (setup_cell False)"
  let ?m = "\<lparr>weights = 0, bias = 1\<rparr>"
  have h: "original ?w (weights ?m)" "requires_grad (heap ?w (weights ?m))"
    "original ?w (bias ?m)" "requires_grad (heap ?w (bias ?m))" "original ?w 2"
    "original ?w 3" "\<not> requires_grad (heap ?w 3)"
    using setup_cell_original [of False] by (simp_all add: eval_nat_numeral)
  have f: "forward ?m 2 ?w = (9, snd (forward ?m 2 ?w))"
    by (simp add: setup_cell_def init_def empty_world_def forward_def torch_defs
        eval_nat_numeral)
  have l: "L1Loss 9 3 (snd (forward ?m 2 ?w)) = (15, snd (loss_cell False))"
    by (simp add: loss_cell_def setup_cell_def init_def empty_world_def forward_def L1Loss_def
        torch_defs eval_nat_numeral)
  from loss_graph [OF h f l] h show ?thesis by simp
qed

section \<open>The four multiplications\<close>

text \<open>
  C5. On \<open>mat1 = [[1,2],[3,4]]\<close> and the all-ones \<open>mat2\<close>: \<open>torch.mul\<close> gives
  \<open>[[1,2],[3,4]]\<close>, \<open>torch.matmul\<close> and \<open>torch.mm\<close> give \<open>[[3,3],[7,7]]\<close>, and \<open>torch.bmm\<close>
  on the two operands with a batch dimension of one in front gives \<open>[[[3,3],[7,7]]]\<close>.
\<close>

theorem multiplication_results:
  "torch_mul mat1 mat2 = [[1, 2], [3, 4]]
   \<and> torch_matmul mat1 mat2 = [[3, 3], [7, 7]]
   \<and> torch_mm mat1 mat2 = [[3, 3], [7, 7]]
   \<and> torch_bmm (unsqueeze0 mat1) (unsqueeze0 mat2) = [[[3, 3], [7, 7]]]"
  by (simp add: torch_mul_def torch_matmul_def torch_mm_def torch_bmm_def unsqueeze0_def
      mat1_def mat2_def numeral_2_eq_2)

end
